theory Spec2Isabelle
  imports Main "HOL-Library.Sublist"
begin

section \<open>Pagination (\<open>paginate\<close> of main.py and app.py)\<close>

text \<open>
  Python's \<^verbatim>\<open>items[start:end]\<close> on a list never raises for integer bounds. Each bound is
  first adjusted against the length \<open>n\<close> of the list: a negative bound has \<open>n\<close> added and is
  then raised to 0 when it is still negative; a bound above \<open>n\<close> is lowered to \<open>n\<close>. The
  slice holds the elements from the adjusted start up to, not including, the adjusted stop,
  and is empty when the stop is not above the start.
\<close>

definition adjust_index :: "int \<Rightarrow> int \<Rightarrow> int" where
  "adjust_index n i =
     (if i < 0 then (if i + n < 0 then 0 else i + n)
      else (if n < i then n else i))"

definition py_slice :: "'a list \<Rightarrow> int \<Rightarrow> int \<Rightarrow> 'a list" where
  "py_slice xs start stop =
     (let n = int (length xs);
          lo = adjust_index n start;
          hi = adjust_index n stop
      in take (nat (hi - lo)) (drop (nat lo) xs))"

text \<open>
  The dictionary \<open>paginate\<close> returns has the five keys below. Python's integers are
  unbounded, so \<open>page\<close> and \<open>offset\<close> are of type \<open>int\<close>.
\<close>

record 'a page_result =
  items :: "'a list"
  has_prev :: bool
  has_next :: bool
  page :: int
  offset :: int

definition PER_PAGE :: int where
  "PER_PAGE = 10"

text \<open>
  \<^verbatim>\<open>
  def paginate(items, page, per_page=PER_PAGE):
      total = len(items)
      start = (page - 1) * per_page
      end = start + per_page
      sliced = items[start:end]
      return {"items": sliced, "has_prev": page > 1, "has_next": end < total,
              "page": page, "offset": start}
  \<close>
  The two files define the same function (app.py also prints the three numbers).
\<close>

definition paginate :: "'a list \<Rightarrow> int \<Rightarrow> int \<Rightarrow> 'a page_result" where
  "paginate its pg per_page =
     (let total = int (length its);
          start = (pg - 1) * per_page;
          end = start + per_page;
          sliced = py_slice its start end
      in \<lparr> items = sliced, has_prev = 1 < pg, has_next = end < total,
           page = pg, offset = start \<rparr>)"

section \<open>The catalog read from films.json\<close>

text \<open>
  A Python \<^verbatim>\<open>str\<close> is a sequence of Unicode code points, so a text value is a list of
  code points (natural numbers). The catalog is a list of dictionaries (\<^verbatim>\<open>list[dict]\<close>):
  a film is an association list from keys to JSON values, read with \<open>map_of\<close>; a
  dictionary has every key once, and so has the list that stands for it. Keys are only
  ever compared for equality, so they are written as string literals. A field holds
  a text, an integer, or a value of another kind (\<open>JOther\<close>: \<^verbatim>\<open>null\<close>, an array or an
  object); JSON booleans and non-integer numbers are not modelled.
\<close>

type_synonym ustring = "nat list"

datatype json = JStr ustring | JInt int | JOther

type_synonym film = "(string \<times> json) list"

datatype py_error = KeyError | TypeError | AttributeError

text \<open>\<^verbatim>\<open>f[k]\<close> on a dictionary raises KeyError when the key is absent.\<close>

definition getitem :: "film \<Rightarrow> string \<Rightarrow> py_error + json" where
  "getitem f k = (case map_of f k of None \<Rightarrow> Inl KeyError | Some v \<Rightarrow> Inr v)"

text \<open>
  \<^verbatim>\<open>[f for f in films if cond(f)]\<close>: the condition is evaluated on the films in order,
  and the first exception it raises ends the comprehension.
\<close>

fun comprehension :: "('a \<Rightarrow> py_error + bool) \<Rightarrow> 'a list \<Rightarrow> py_error + 'a list" where
  "comprehension cond [] = Inr []"
| "comprehension cond (f # fs) =
     (case cond f of
        Inl e \<Rightarrow> Inl e
      | Inr b \<Rightarrow>
          (case comprehension cond fs of
             Inl e \<Rightarrow> Inl e
           | Inr rest \<Rightarrow> Inr (if b then f # rest else rest)))"

section \<open>The three filters\<close>

text \<open>
  \<^verbatim>\<open>f["genre"] == genre\<close>: equality with a \<^verbatim>\<open>str\<close> is false, without an error, for a
  value that is not a \<^verbatim>\<open>str\<close>.
\<close>

definition genre_cond :: "ustring \<Rightarrow> film \<Rightarrow> py_error + bool" where
  "genre_cond genre f =
     (case getitem f ''genre'' of
        Inl e \<Rightarrow> Inl e
      | Inr v \<Rightarrow> Inr (v = JStr genre))"

definition genre_filter :: "film list \<Rightarrow> ustring \<Rightarrow> py_error + film list" where
  "genre_filter films genre = comprehension (genre_cond genre) films"

text \<open>
  \<^verbatim>\<open>kw_lower in f["title"].lower()\<close>: only a \<^verbatim>\<open>str\<close> has the method \<^verbatim>\<open>lower\<close>
  (AttributeError otherwise), and \<^verbatim>\<open>in\<close> between two \<^verbatim>\<open>str\<close> tests for a contiguous
  substring, which is \<open>sublist\<close>. The case mapping \<^verbatim>\<open>str.lower\<close> is the Unicode table of
  the Python runtime, which is no part of the repository: it is the parameter \<open>lower\<close>.
\<close>

definition keyword_cond :: "(ustring \<Rightarrow> ustring) \<Rightarrow> ustring \<Rightarrow> film \<Rightarrow> py_error + bool" where
  "keyword_cond lower kw_lower f =
     (case getitem f ''title'' of
        Inl e \<Rightarrow> Inl e
      | Inr (JStr t) \<Rightarrow> Inr (sublist kw_lower (lower t))
      | Inr _ \<Rightarrow> Inl AttributeError)"

definition keyword_filter ::
  "(ustring \<Rightarrow> ustring) \<Rightarrow> film list \<Rightarrow> ustring \<Rightarrow> py_error + film list" where
  "keyword_filter lower films keyword =
     (let kw_lower = lower keyword
      in comprehension (keyword_cond lower kw_lower) films)"

text \<open>
  \<^verbatim>\<open>year_from <= f["year"] <= year_to\<close>: comparing an \<^verbatim>\<open>int\<close> with a \<^verbatim>\<open>str\<close>, with
  \<^verbatim>\<open>None\<close>, with a list or with a dictionary raises TypeError.
\<close>

definition year_cond :: "int \<Rightarrow> int \<Rightarrow> film \<Rightarrow> py_error + bool" where
  "year_cond year_from year_to f =
     (case getitem f ''year'' of
        Inl e \<Rightarrow> Inl e
      | Inr (JInt y) \<Rightarrow> Inr (year_from \<le> y \<and> y \<le> year_to)
      | Inr _ \<Rightarrow> Inl TypeError)"

definition year_filter :: "film list \<Rightarrow> int \<Rightarrow> int \<Rightarrow> py_error + film list" where
  "year_filter films year_from year_to = comprehension (year_cond year_from year_to) films"

section \<open>The request handlers and the global \<open>filtered_films\<close>\<close>

text \<open>
  The module-level variable \<open>filtered_films\<close> is the only state of the process; it starts
  as the empty list. A handler takes the catalog that \<open>load_json(FILMS_FILE)\<close> returns for
  its request and the state, and gives back the state and the response, or the exception
  that ends the request; an exception is raised before the assignment, which leaves the
  variable as it was. Of a rendered page the template name and the pagination are kept.
\<close>

record app_state =
  filtered_films :: "film list"

definition initial_state :: app_state where
  "initial_state = \<lparr> filtered_films = [] \<rparr>"

datatype response =
  RedirectResponse string
| TemplateResponse string "film page_result"

text \<open>main.py, \<open>films_by_genre\<close>: assigns the global, then paginates it.\<close>

definition films_by_genre_main ::
  "film list \<Rightarrow> app_state \<Rightarrow> ustring \<Rightarrow> int \<Rightarrow> py_error + (app_state \<times> response)" where
  "films_by_genre_main films st genre pg =
     (case genre_filter films genre of
        Inl e \<Rightarrow> Inl e
      | Inr fs \<Rightarrow>
          (let st' = st\<lparr> filtered_films := fs \<rparr>;
               pagination = paginate (filtered_films st') pg PER_PAGE
           in Inr (st', TemplateResponse ''keyword.html'' pagination)))"

text \<open>app.py, \<open>films_by_genre\<close>: the filtered list is a local variable.\<close>

definition films_by_genre_app ::
  "film list \<Rightarrow> app_state \<Rightarrow> ustring \<Rightarrow> int \<Rightarrow> py_error + (app_state \<times> response)" where
  "films_by_genre_app films st genre pg =
     (case genre_filter films genre of
        Inl e \<Rightarrow> Inl e
      | Inr filtered \<Rightarrow>
          (let pagination = paginate filtered pg PER_PAGE
           in Inr (st, TemplateResponse ''keyword.html'' pagination)))"

text \<open>main.py, \<open>keyword_search\<close> (POST) and \<open>keyword_form\<close> (GET).\<close>

definition keyword_search_main ::
  "(ustring \<Rightarrow> ustring) \<Rightarrow> film list \<Rightarrow> app_state \<Rightarrow> ustring
     \<Rightarrow> py_error + (app_state \<times> response)" where
  "keyword_search_main lower films st keyword =
     (case keyword_filter lower films keyword of
        Inl e \<Rightarrow> Inl e
      | Inr fs \<Rightarrow> Inr (st\<lparr> filtered_films := fs \<rparr>, RedirectResponse ''/search/keyword''))"

definition keyword_form_main :: "app_state \<Rightarrow> int \<Rightarrow> response" where
  "keyword_form_main st pg =
     TemplateResponse ''keyword.html'' (paginate (filtered_films st) pg PER_PAGE)"

text \<open>app.py, \<open>keyword_search\<close> (POST): filters and renders in the same request.\<close>

definition keyword_search_app ::
  "(ustring \<Rightarrow> ustring) \<Rightarrow> film list \<Rightarrow> app_state \<Rightarrow> ustring \<Rightarrow> int
     \<Rightarrow> py_error + (app_state \<times> response)" where
  "keyword_search_app lower films st keyword pg =
     (case keyword_filter lower films keyword of
        Inl e \<Rightarrow> Inl e
      | Inr filtered \<Rightarrow>
          (let pagination = paginate filtered pg PER_PAGE
           in Inr (st, TemplateResponse ''keyword.html'' pagination)))"

text \<open>\<open>year_form_submit\<close> (POST) and \<open>year_search\<close> (GET), the same in both files.\<close>

definition year_form_submit ::
  "film list \<Rightarrow> app_state \<Rightarrow> int \<Rightarrow> int \<Rightarrow> py_error + (app_state \<times> response)" where
  "year_form_submit films st year_from year_to =
     (case year_filter films year_from year_to of
        Inl e \<Rightarrow> Inl e
      | Inr fs \<Rightarrow> Inr (st\<lparr> filtered_films := fs \<rparr>, RedirectResponse ''/search/year''))"

definition year_search :: "app_state \<Rightarrow> int \<Rightarrow> response" where
  "year_search st pg =
     TemplateResponse ''year.html'' (paginate (filtered_films st) pg PER_PAGE)"

section \<open>Case mapping of the Python runtime below code point 256\<close>

text \<open>
  For a string whose code points are all below 256, \<^verbatim>\<open>str.lower\<close> and \<^verbatim>\<open>str.upper\<close>
  of Python 3 map each code point on its own, as tabulated here: the letters A to Z and
  U+00C0 to U+00DE (without the sign U+00D7) have a lower case 32 above; the letters a to z
  and U+00E0 to U+00FE (without the sign U+00F7) have an upper case 32 below; the upper
  case of U+00DF (sharp s) is the two letters SS, that of U+00B5 (micro sign) is U+039C and
  that of U+00FF is U+0178. The two functions are used on such strings only; a code point
  from 256 on is left as it is, which is not what the runtime does for all of them.
\<close>

definition lower_cp :: "nat \<Rightarrow> nat list" where
  "lower_cp c =
     (if (65 \<le> c \<and> c \<le> 90) \<or> (192 \<le> c \<and> c \<le> 222 \<and> c \<noteq> 215) then [c + 32]
      else [c])"

definition upper_cp :: "nat \<Rightarrow> nat list" where
  "upper_cp c =
     (if (97 \<le> c \<and> c \<le> 122) \<or> (224 \<le> c \<and> c \<le> 254 \<and> c \<noteq> 247) then [c - 32]
      else if c = 223 then [83, 83]
      else if c = 181 then [924]
      else if c = 255 then [376]
      else [c])"

definition latin1_lower :: "ustring \<Rightarrow> ustring" where
  "latin1_lower s = concat (map lower_cp s)"

definition latin1_upper :: "ustring \<Rightarrow> ustring" where
  "latin1_upper s = concat (map upper_cp s)"

section \<open>Notions of the specification\<close>

text \<open>
  A well-typed film has a text under title, description and genre and an integer under
  year; a well-typed catalog holds well-typed films only.
\<close>

fun is_text :: "json option \<Rightarrow> bool" where
  "is_text (Some (JStr t)) = True"
| "is_text v = False"

fun is_integer :: "json option \<Rightarrow> bool" where
  "is_integer (Some (JInt y)) = True"
| "is_integer v = False"

definition well_typed_film :: "film \<Rightarrow> bool" where
  "well_typed_film f =
     (is_text (map_of f ''title'') \<and> is_text (map_of f ''description'')
      \<and> is_text (map_of f ''genre'') \<and> is_integer (map_of f ''year''))"

definition well_typed_catalog :: "film list \<Rightarrow> bool" where
  "well_typed_catalog films = list_all well_typed_film films"

text \<open>
  The three criteria in the words of the specification: the genre field equals the value;
  the lowercased title contains the lowercased keyword; the year lies between the bounds,
  both included.
\<close>

definition has_genre :: "ustring \<Rightarrow> film \<Rightarrow> bool" where
  "has_genre g f = (map_of f ''genre'' = Some (JStr g))"

definition title_contains :: "(ustring \<Rightarrow> ustring) \<Rightarrow> ustring \<Rightarrow> film \<Rightarrow> bool" where
  "title_contains lower k f =
     (case map_of f ''title'' of
        Some (JStr t) \<Rightarrow> sublist (lower k) (lower t)
      | _ \<Rightarrow> False)"

definition year_in_range :: "int \<Rightarrow> int \<Rightarrow> film \<Rightarrow> bool" where
  "year_in_range a b f =
     (case map_of f ''year'' of
        Some (JInt y) \<Rightarrow> a \<le> y \<and> y \<le> b
      | _ \<Rightarrow> False)"

text \<open>
  Reading the pages one after the other, from page \<open>n\<close> on, until a page has no items, and
  concatenating their items.
\<close>

function pages_from :: "'a list \<Rightarrow> int \<Rightarrow> int \<Rightarrow> 'a list" where
  "pages_from S p n =
     (if items (paginate S n p) = [] then []
      else items (paginate S n p) @ pages_from S p (n + 1))"
  by pat_completeness auto

section \<open>An example catalog\<close>

text \<open>
  Four films for the concrete evaluations below; the texts are given by their code
  points: Drama, Comedy, Heat, Hot Fuzz, The Heat and Strasse spelled with the sharp s (U+00DF).
\<close>

definition drama :: ustring where
  "drama = [68, 114, 97, 109, 97]"

definition comedy :: ustring where
  "comedy = [67, 111, 109, 101, 100, 121]"

definition film_heat :: film where
  "film_heat =
     [(''title'', JStr [72, 101, 97, 116]), (''description'', JStr []),
      (''genre'', JStr drama), (''year'', JInt 1995)]"

definition film_hot_fuzz :: film where
  "film_hot_fuzz =
     [(''title'', JStr [72, 111, 116, 32, 70, 117, 122, 122]), (''description'', JStr []),
      (''genre'', JStr comedy), (''year'', JInt 2007)]"

definition film_the_heat :: film where
  "film_the_heat =
     [(''title'', JStr [84, 104, 101, 32, 72, 101, 97, 116]), (''description'', JStr []),
      (''genre'', JStr comedy), (''year'', JInt 2013)]"

definition film_strasse :: film where
  "film_strasse =
     [(''title'', JStr [83, 116, 114, 97, 223, 101]), (''description'', JStr []),
      (''genre'', JStr drama), (''year'', JInt 1923)]"

definition example_catalog :: "film list" where
  "example_catalog = [film_heat, film_hot_fuzz, film_the_heat]"

section \<open>Properties of pagination\<close>

lemma adjust_index_inside:
  "0 \<le> i \<Longrightarrow> adjust_index n i = min n i"
  by (simp add: adjust_index_def)

lemma py_slice_nonneg:
  assumes "0 \<le> start" and "start \<le> stop"
  shows "py_slice xs start stop = take (nat (stop - start)) (drop (nat start) xs)"
proof (cases "start \<le> int (length xs)")
  case True
  have lo: "adjust_index (int (length xs)) start = start"
    using assms True by (simp add: adjust_index_inside)
  show ?thesis
  proof (cases "stop \<le> int (length xs)")
    case True
    have "adjust_index (int (length xs)) stop = stop"
      using assms True by (simp add: adjust_index_inside)
    with lo show ?thesis by (simp add: py_slice_def)
  next
    case False
    have "adjust_index (int (length xs)) stop = int (length xs)"
      using assms False by (simp add: adjust_index_inside)
    with lo have "py_slice xs start stop
        = take (nat (int (length xs) - start)) (drop (nat start) xs)"
      by (simp add: py_slice_def)
    also have "\<dots> = drop (nat start) xs"
      using assms True by simp
    also have "\<dots> = take (nat (stop - start)) (drop (nat start) xs)"
      using assms False by simp
    finally show ?thesis .
  qed
next
  case False
  have "adjust_index (int (length xs)) start = int (length xs)"
    using assms False by (simp add: adjust_index_inside)
  then have "py_slice xs start stop = []"
    by (simp add: py_slice_def)
  moreover have "drop (nat start) xs = []"
    using False by simp
  ultimately show ?thesis by simp
qed

lemma take_drop_positions:
  "take k (drop m xs) = map ((!) xs) [m ..< min (m + k) (length xs)]"
proof (rule nth_equalityI)
  show "length (take k (drop m xs)) = length (map ((!) xs) [m ..< min (m + k) (length xs)])"
    by auto
next
  fix i
  assume "i < length (take k (drop m xs))"
  then show "take k (drop m xs) ! i = map ((!) xs) [m ..< min (m + k) (length xs)] ! i"
    by auto
qed

lemma offset_nonneg:
  "(1::int) \<le> pg \<Longrightarrow> 1 \<le> per_page \<Longrightarrow> 0 \<le> (pg - 1) * per_page"
  by simp

lemma paginate_items_pos:
  assumes "1 \<le> pg" and "1 \<le> per_page"
  shows "items (paginate xs pg per_page)
           = take (nat per_page) (drop (nat ((pg - 1) * per_page)) xs)"
proof -
  have "0 \<le> (pg - 1) * per_page"
    using assms by (rule offset_nonneg)
  moreover have "(pg - 1) * per_page \<le> (pg - 1) * per_page + per_page"
    using assms by simp
  ultimately have "py_slice xs ((pg - 1) * per_page) ((pg - 1) * per_page + per_page)
      = take (nat ((pg - 1) * per_page + per_page - (pg - 1) * per_page))
          (drop (nat ((pg - 1) * per_page)) xs)"
    by (rule py_slice_nonneg)
  then show ?thesis
    by (simp add: paginate_def Let_def)
qed

text \<open>
  The loop of \<open>pages_from\<close> ends for every sequence, page size and first page: a page
  with items has a number that is at most the length of the sequence.
\<close>

lemma py_slice_nonempty:
  assumes "py_slice xs a b \<noteq> []"
  shows "adjust_index (int (length xs)) a < adjust_index (int (length xs)) b"
    and "adjust_index (int (length xs)) a < int (length xs)"
  using assms by (auto simp: py_slice_def Let_def split: if_splits)

lemma paginate_nonempty_bound:
  assumes "items (paginate S n p) \<noteq> []"
  shows "n \<le> int (length S)"
proof (rule ccontr)
  assume "\<not> n \<le> int (length S)"
  then have big: "int (length S) < n" by simp
  then have n1: "1 \<le> n" by linarith
  from assms have ne: "py_slice S ((n - 1) * p) ((n - 1) * p + p) \<noteq> []"
    by (simp add: paginate_def Let_def)
  note lt = py_slice_nonempty [OF ne]
  consider "1 \<le> p" | "p = 0" | "p < 0" by linarith
  then show False
  proof cases
    case 1
    have "(n - 1) * 1 \<le> (n - 1) * p"
      using n1 1 by (intro mult_left_mono) simp_all
    then have "int (length S) \<le> (n - 1) * p" using big by simp
    then show False using lt(2) by (simp add: adjust_index_def split: if_splits)
  next
    case 2
    then show False using lt(1) by simp
  next
    case 3
    show False
    proof (cases "n = 1")
      case True
      then have "length S = 0" using big by simp
      then show False using lt(2) by (simp add: adjust_index_def split: if_splits)
    next
      case False
      then have "0 < n - 1" using n1 by simp
      then have "(n - 1) * p < 0"
        using 3 by (rule mult_pos_neg)
      then show False using lt(1) 3 by (simp add: adjust_index_def split: if_splits)
    qed
  qed
qed

termination pages_from
proof (relation "measure (\<lambda>(S, p, n). nat (int (length S) + 1 - n))")
  show "wf (measure (\<lambda>(S, p, n). nat (int (length S) + 1 - n)))" by simp
next
  fix S :: "'a list" and p n :: int
  assume "items (paginate S n p) \<noteq> []"
  then have "n \<le> int (length S)" by (rule paginate_nonempty_bound)
  then show "((S, p, n + 1), (S, p, n)) \<in> measure (\<lambda>(S, p, n). nat (int (length S) + 1 - n))"
    by simp
qed

declare pages_from.simps [simp del]


text \<open>
  C1. For a positive page number and a positive page size, the result of \<open>paginate\<close> has
  offset \<open>(page - 1) * pageSize\<close>; its items are the elements of the sequence at the
  positions from the offset up to, not including, offset + pageSize, cut at the end of the
  sequence, so there are none when the offset is at or past the length; \<open>has_prev\<close> is
  \<open>page > 1\<close> and \<open>has_next\<close> is \<open>offset + pageSize < length\<close>.
\<close>

theorem paginate_page_result:
  assumes "1 \<le> pg" and "1 \<le> per_page"
  shows "offset (paginate S pg per_page) = (pg - 1) * per_page
       \<and> items (paginate S pg per_page)
           = map ((!) S) [nat (offset (paginate S pg per_page))
                          ..< min (nat (offset (paginate S pg per_page) + per_page)) (length S)]
       \<and> (int (length S) \<le> offset (paginate S pg per_page)
            \<longrightarrow> items (paginate S pg per_page) = [])
       \<and> has_prev (paginate S pg per_page) = (1 < pg)
       \<and> has_next (paginate S pg per_page)
           = (offset (paginate S pg per_page) + per_page < int (length S))
       \<and> page (paginate S pg per_page) = pg"
proof -
  have off: "offset (paginate S pg per_page) = (pg - 1) * per_page"
    by (simp add: paginate_def Let_def)
  have nn: "0 \<le> (pg - 1) * per_page"
    using assms by (rule offset_nonneg)
  have sum: "nat ((pg - 1) * per_page + per_page) = nat ((pg - 1) * per_page) + nat per_page"
    using nn assms by (simp add: nat_add_distrib)
  have its: "items (paginate S pg per_page)
      = map ((!) S) [nat ((pg - 1) * per_page)
                     ..< min (nat ((pg - 1) * per_page + per_page)) (length S)]"
    using paginate_items_pos [OF assms, of S] take_drop_positions [of "nat per_page" "nat ((pg - 1) * per_page)" S]
    by (simp only: sum)
  have emp: "int (length S) \<le> (pg - 1) * per_page \<longrightarrow> items (paginate S pg per_page) = []"
    using paginate_items_pos [OF assms, of S] nn by auto
  have prev: "has_prev (paginate S pg per_page) = (1 < pg)"
    by (simp add: paginate_def Let_def)
  have nxt: "has_next (paginate S pg per_page) = ((pg - 1) * per_page + per_page < int (length S))"
    by (simp add: paginate_def Let_def)
  have pgn: "page (paginate S pg per_page) = pg"
    by (simp add: paginate_def Let_def)
  show ?thesis
    using off its emp prev nxt pgn by (simp only: simp_thms)
qed

theorem paginate_page_result_witness:
  "(1::int) \<le> 3 \<and> (1::int) \<le> 2
   \<and> offset (paginate [10, 20, 30, 40, 50 :: nat] 3 2) = 4
   \<and> items (paginate [10, 20, 30, 40, 50 :: nat] 3 2) = [50]
   \<and> has_prev (paginate [10, 20, 30, 40, 50 :: nat] 3 2)
   \<and> \<not> has_next (paginate [10, 20, 30, 40, 50 :: nat] 3 2)"
proof -
  have a: "(1::int) \<le> 3" and b: "(1::int) \<le> 2" by simp_all
  show ?thesis
    using paginate_page_result [OF a b, of "[10, 20, 30, 40, 50 :: nat]"]
    by (simp add: upt_conv_Cons)
qed

lemma nat_offset_step:
  assumes "(1::int) \<le> n" and "0 < p"
  shows "nat ((n + 1 - 1) * p) = nat ((n - 1) * p) + nat p"
proof -
  have "0 \<le> (n - 1) * p" using assms by simp
  moreover have "(n + 1 - 1) * p = (n - 1) * p + p" by (simp add: algebra_simps)
  ultimately show ?thesis using assms by (simp add: nat_add_distrib)
qed

lemma pages_from_drop:
  "1 \<le> n \<Longrightarrow> 0 < p \<Longrightarrow> pages_from S p n = drop (nat ((n - 1) * p)) S"
proof (induction S p n rule: pages_from.induct)
  case (1 S p n)
  have p1: "1 \<le> p" using "1.prems" by simp
  have its: "items (paginate S n p) = take (nat p) (drop (nat ((n - 1) * p)) S)"
    using "1.prems"(1) p1 by (rule paginate_items_pos)
  note unfold = pages_from.simps [of S p n]
  show ?case
  proof (cases "items (paginate S n p) = []")
    case True
    then have "drop (nat ((n - 1) * p)) S = []"
      using its "1.prems" by simp
    moreover have "pages_from S p n = []"
      using unfold True by simp
    ultimately show ?thesis by simp
  next
    case False
    have "pages_from S p (n + 1) = drop (nat ((n + 1 - 1) * p)) S"
      using "1.IH" [OF False] "1.prems" by simp
    also have "\<dots> = drop (nat ((n - 1) * p) + nat p) S"
      by (simp only: nat_offset_step [OF "1.prems"])
    also have "\<dots> = drop (nat p) (drop (nat ((n - 1) * p)) S)"
      by (simp add: add.commute)
    finally have rest: "pages_from S p (n + 1) = drop (nat p) (drop (nat ((n - 1) * p)) S)" .
    have "pages_from S p n = items (paginate S n p) @ pages_from S p (n + 1)"
      using unfold False by simp
    also have "\<dots> = take (nat p) (drop (nat ((n - 1) * p)) S)
                      @ drop (nat p) (drop (nat ((n - 1) * p)) S)"
      by (simp only: its rest)
    also have "\<dots> = drop (nat ((n - 1) * p)) S"
      by (rule append_take_drop_id)
    finally show ?thesis .
  qed
qed


text \<open>
  C2. For every sequence and every page size above 0, the items of page 1, page 2 and so
  on, up to the first page without items, concatenated in this order, are the sequence
  itself: the same elements in the same order, none missing and none twice.
\<close>

theorem pages_reconstruct:
  "0 < p \<Longrightarrow> pages_from S p 1 = S"
  using pages_from_drop [of 1 p S] by simp

theorem pages_reconstruct_witness:
  "(0::int) < 2 \<and> pages_from [10, 20, 30, 40, 50 :: nat] 2 1 = [10, 20, 30, 40, 50]"
  using pages_reconstruct [of 2 "[10, 20, 30, 40, 50 :: nat]"] by simp

text \<open>
  C8. For a page size above 0 and a page number from 1 on, \<open>has_next\<close> is true exactly
  when \<open>n * p\<close> is below the length of the sequence; it is false exactly when the next page
  has no items, which is when no later page has items: page \<open>n\<close> is then the last page
  with items or a page after it.
\<close>

theorem has_next_last_page:
  assumes "1 \<le> n" and "0 < p"
  shows "has_next (paginate S n p) = (n * p < int (length S))
       \<and> (\<not> has_next (paginate S n p)) = (items (paginate S (n + 1) p) = [])
       \<and> (\<not> has_next (paginate S n p)) = (\<forall>m>n. items (paginate S m p) = [])"
proof -
  have p1: "1 \<le> p" using assms by simp
  have "(n - 1) * p + p = n * p"
    by (simp add: left_diff_distrib)
  then have hn: "has_next (paginate S n p) = (n * p < int (length S))"
    by (simp add: paginate_def Let_def)
  have np: "0 \<le> n * p" using assms by simp
  have nxt: "(items (paginate S (n + 1) p) = []) = (int (length S) \<le> n * p)"
  proof -
    have "items (paginate S (n + 1) p) = take (nat p) (drop (nat (n * p)) S)"
      using paginate_items_pos [of "n + 1" p S] assms p1 by simp
    moreover have "(length S \<le> nat (n * p)) = (int (length S) \<le> n * p)"
      using np by linarith
    ultimately show ?thesis using assms by simp
  qed
  have later: "(\<forall>m>n. items (paginate S m p) = []) = (int (length S) \<le> n * p)"
  proof
    assume "\<forall>m>n. items (paginate S m p) = []"
    then have "items (paginate S (n + 1) p) = []" by simp
    then show "int (length S) \<le> n * p" using nxt by simp
  next
    assume le: "int (length S) \<le> n * p"
    show "\<forall>m>n. items (paginate S m p) = []"
    proof (intro allI impI)
      fix m assume "n < m"
      then have "n \<le> m - 1" by simp
      then have "n * p \<le> (m - 1) * p"
        using assms by (intro mult_right_mono) simp_all
      then have big: "int (length S) \<le> (m - 1) * p" using le by simp
      have "1 \<le> m" using \<open>n < m\<close> assms by simp
      then have "items (paginate S m p) = take (nat p) (drop (nat ((m - 1) * p)) S)"
        using p1 by (rule paginate_items_pos)
      then show "items (paginate S m p) = []" using big by simp
    qed
  qed
  show ?thesis
    unfolding hn nxt later by (simp add: not_less)
qed

theorem has_next_last_page_witness:
  "(1::int) \<le> 3 \<and> (0::int) < 2
   \<and> \<not> has_next (paginate [10, 20, 30, 40, 50 :: nat] 3 2)
   \<and> items (paginate [10, 20, 30, 40, 50 :: nat] (3 + 1) 2) = []
   \<and> items (paginate [10, 20, 30, 40, 50 :: nat] 7 2) = []"
proof -
  have a: "(1::int) \<le> 3" and b: "(0::int) < 2" by simp_all
  note th = has_next_last_page [OF a b, of "[10, 20, 30, 40, 50 :: nat]"]
  from th have no: "\<not> has_next (paginate [10, 20, 30, 40, 50 :: nat] 3 2)"
    by simp
  from th no have "items (paginate [10, 20, 30, 40, 50 :: nat] (3 + 1) 2) = []"
    by blast
  moreover from th no have "\<forall>m>3. items (paginate [10, 20, 30, 40, 50 :: nat] m 2) = []"
    by blast
  then have "items (paginate [10, 20, 30, 40, 50 :: nat] 7 2) = []"
    by simp
  ultimately show ?thesis using a b no by blast
qed

lemma paginate_page_zero:
  "items (paginate S 0 p) = [] \<and> offset (paginate S 0 p) = - p"
proof -
  have "py_slice S (- p) 0 = []"
    by (simp add: py_slice_def adjust_index_def Let_def)
  then show ?thesis
    by (simp add: paginate_def Let_def)
qed

lemma paginate_negative_page:
  assumes pg: "pg \<le> - 1" and p: "0 < p" and fit: "(1 - pg) * p \<le> int (length S)"
  shows "items (paginate S pg p)
           = take (nat p) (drop (nat (int (length S) - (1 - pg) * p)) S)"
    and "length (items (paginate S pg p)) = nat p"
    and "offset (paginate S pg p) = (pg - 1) * p"
    and "offset (paginate S pg p) < 0"
proof -
  define n where "n = int (length S)"
  define start where "start = (pg - 1) * p"
  have start_eq: "start = - ((1 - pg) * p)"
    by (simp add: start_def algebra_simps)
  have "0 < (1 - pg) * p"
    using pg p by (intro mult_pos_pos) simp_all
  then have neg: "start < 0" using start_eq by simp
  have "- pg * p \<ge> 1 * p"
    using pg p by (intro mult_right_mono) simp_all
  then have pgp: "pg * p \<le> - p" by simp
  have stop_eq: "start + p = pg * p"
    by (simp add: start_def algebra_simps)
  have stop_neg: "start + p < 0" using stop_eq pgp p by simp
  have lo: "adjust_index n start = start + n"
    using neg fit start_eq by (simp add: adjust_index_def n_def)
  have hi: "adjust_index n (start + p) = start + p + n"
    using stop_neg fit start_eq p by (simp add: adjust_index_def n_def)
  have "py_slice S start (start + p) = take (nat p) (drop (nat (start + n)) S)"
    using lo hi by (simp add: py_slice_def Let_def n_def)
  then have its: "items (paginate S pg p) = take (nat p) (drop (nat (n - (1 - pg) * p)) S)"
    using start_eq by (simp add: paginate_def Let_def start_def)
  then show "items (paginate S pg p)
           = take (nat p) (drop (nat (int (length S) - (1 - pg) * p)) S)"
    by (simp add: n_def)
  have "nat (n - (1 - pg) * p) + nat p \<le> length S"
    using fit pgp p stop_eq start_eq by (simp add: n_def)
  then show "length (items (paginate S pg p)) = nat p"
    using its by simp
  show "offset (paginate S pg p) = (pg - 1) * p"
    by (simp add: paginate_def Let_def)
  then show "offset (paginate S pg p) < 0"
    using neg by (simp add: start_def)
qed

text \<open>
  C9. Below page 1: page 0 has no items and the offset \<open>- p\<close>, for every sequence and
  every \<open>p\<close>. For a page number of \<open>- 1\<close> or less and a page size above 0, whenever
  \<open>(1 - page) * p\<close> is at most the length of the sequence, the items are not empty: they
  are the \<open>p\<close> elements that start \<open>(1 - page) * p\<close> positions before the end of the
  sequence, and the offset is the negative number \<open>(page - 1) * p\<close>.
\<close>

theorem paginate_below_first_page:
  "items (paginate S 0 p) = [] \<and> offset (paginate S 0 p) = - p
   \<and> (pg \<le> - 1 \<and> 0 < p \<and> (1 - pg) * p \<le> int (length S) \<longrightarrow>
        items (paginate S pg p) \<noteq> []
        \<and> items (paginate S pg p)
            = take (nat p) (drop (nat (int (length S) - (1 - pg) * p)) S)
        \<and> length (items (paginate S pg p)) = nat p
        \<and> offset (paginate S pg p) = (pg - 1) * p
        \<and> offset (paginate S pg p) < 0)"
proof (intro conjI impI)
  show "items (paginate S 0 p) = []" and "offset (paginate S 0 p) = - p"
    using paginate_page_zero [of S p] by simp_all
next
  assume h: "pg \<le> - 1 \<and> 0 < p \<and> (1 - pg) * p \<le> int (length S)"
  then have a: "pg \<le> - 1" and b: "0 < p" and c: "(1 - pg) * p \<le> int (length S)"
    by simp_all
  note r = paginate_negative_page [OF a b c]
  from r(2) b show "items (paginate S pg p) \<noteq> []" by auto
  from r(1) show "items (paginate S pg p)
            = take (nat p) (drop (nat (int (length S) - (1 - pg) * p)) S)" .
  from r(2) show "length (items (paginate S pg p)) = nat p" .
  from r(3) show "offset (paginate S pg p) = (pg - 1) * p" .
  from r(4) show "offset (paginate S pg p) < 0" .
qed

theorem paginate_below_first_page_witness:
  "(- 1 :: int) \<le> - 1 \<and> (0::int) < 10 \<and> (1 - (- 1)) * 10 \<le> int (length [0 ..< 25])
   \<and> items (paginate [0 ..< 25] (- 1) 10) = [5 ..< 15]
   \<and> offset (paginate [0 ..< 25] (- 1) 10) = - 20
   \<and> items (paginate [0 ..< 25] 0 10) = []
   \<and> offset (paginate [0 ..< 25] 0 10) = - 10"
proof -
  have "take 10 (drop 5 [0 ..< 25]) = [5 ..< 15]"
    by (simp add: take_upt drop_upt)
  then show ?thesis
    using paginate_below_first_page [of "[0 ..< 25]" 10 "- 1"] by simp
qed

section \<open>Properties of the filters\<close>

text \<open>
  On a well-typed catalog no condition of a comprehension raises, and the comprehension
  is the \<open>filter\<close> of HOL with the criterion of the specification.
\<close>

lemma comprehension_filter:
  "(\<And>f. f \<in> set fs \<Longrightarrow> cond f = Inr (P f)) \<Longrightarrow> comprehension cond fs = Inr (filter P fs)"
  by (induction fs) simp_all

lemma well_typed_catalog_film:
  "well_typed_catalog C \<Longrightarrow> f \<in> set C \<Longrightarrow> well_typed_film f"
  by (simp add: well_typed_catalog_def list_all_iff)

lemma is_text_cases: "is_text v \<Longrightarrow> \<exists>t. v = Some (JStr t)"
  by (cases v rule: is_text.cases) simp_all

lemma is_integer_cases: "is_integer v \<Longrightarrow> \<exists>y. v = Some (JInt y)"
  by (cases v rule: is_integer.cases) simp_all

lemma genre_cond_well_typed:
  assumes "well_typed_film f"
  shows "genre_cond g f = Inr (has_genre g f)"
proof -
  obtain t where "map_of f ''genre'' = Some (JStr t)"
    using assms is_text_cases by (auto simp: well_typed_film_def)
  then show ?thesis
    by (auto simp: genre_cond_def getitem_def has_genre_def)
qed

lemma keyword_cond_well_typed:
  assumes "well_typed_film f"
  shows "keyword_cond lower (lower k) f = Inr (title_contains lower k f)"
proof -
  obtain t where "map_of f ''title'' = Some (JStr t)"
    using assms is_text_cases by (auto simp: well_typed_film_def)
  then show ?thesis
    by (simp add: keyword_cond_def getitem_def title_contains_def)
qed

lemma year_cond_well_typed:
  assumes "well_typed_film f"
  shows "year_cond a b f = Inr (year_in_range a b f)"
proof -
  obtain y where "map_of f ''year'' = Some (JInt y)"
    using assms is_integer_cases by (auto simp: well_typed_film_def)
  then show ?thesis
    by (simp add: year_cond_def getitem_def year_in_range_def)
qed

lemma genre_filter_well_typed:
  "well_typed_catalog C \<Longrightarrow> genre_filter C g = Inr (filter (has_genre g) C)"
  unfolding genre_filter_def
  by (rule comprehension_filter) (simp add: genre_cond_well_typed well_typed_catalog_film)

lemma keyword_filter_well_typed:
  "well_typed_catalog C \<Longrightarrow> keyword_filter lower C k = Inr (filter (title_contains lower k) C)"
  unfolding keyword_filter_def Let_def
  by (rule comprehension_filter) (simp add: keyword_cond_well_typed well_typed_catalog_film)

lemma year_filter_well_typed:
  "well_typed_catalog C \<Longrightarrow> year_filter C a b = Inr (filter (year_in_range a b) C)"
  unfolding year_filter_def
  by (rule comprehension_filter) (simp add: year_cond_well_typed well_typed_catalog_film)

lemmas example_defs =
  example_catalog_def film_heat_def film_hot_fuzz_def film_the_heat_def film_strasse_def
  drama_def comedy_def

lemma example_catalog_well_typed: "well_typed_catalog example_catalog"
  by (simp add: well_typed_catalog_def well_typed_film_def example_defs)

text \<open>
  C4. For a well-typed catalog and a genre \<open>g\<close>, the genre filter returns a list without
  raising; every film of the result has the genre field equal to \<open>g\<close> as a text, code
  point by code point (so case matters); and the result is the list of the matching films
  of the catalog in the order of the catalog.
\<close>

theorem genre_filter_exact:
  assumes "well_typed_catalog C"
  shows "\<exists>r. genre_filter C g = Inr r
           \<and> (\<forall>f\<in>set r. map_of f ''genre'' = Some (JStr g))
           \<and> r = filter (\<lambda>f. map_of f ''genre'' = Some (JStr g)) C
           \<and> subseq r C"
proof -
  have eq: "has_genre g = (\<lambda>f. map_of f ''genre'' = Some (JStr g))"
    by (rule ext) (simp add: has_genre_def)
  have "genre_filter C g = Inr (filter (has_genre g) C)"
    using assms by (rule genre_filter_well_typed)
  moreover have "\<forall>f\<in>set (filter (has_genre g) C). map_of f ''genre'' = Some (JStr g)"
    by (simp add: has_genre_def)
  moreover have "subseq (filter (has_genre g) C) C"
    by simp
  ultimately show ?thesis
    unfolding eq by blast
qed

theorem genre_filter_exact_witness:
  "well_typed_catalog example_catalog
   \<and> (\<exists>r. genre_filter example_catalog comedy = Inr r
          \<and> (\<forall>f\<in>set r. map_of f ''genre'' = Some (JStr comedy))
          \<and> r = [film_hot_fuzz, film_the_heat]
          \<and> subseq r example_catalog)"
proof -
  have "filter (\<lambda>f. map_of f ''genre'' = Some (JStr comedy)) example_catalog
          = [film_hot_fuzz, film_the_heat]"
    by (simp add: example_defs)
  then show ?thesis
    using genre_filter_exact [OF example_catalog_well_typed, of comedy]
      example_catalog_well_typed
    by auto
qed

text \<open>
  C6. For a well-typed catalog and two integer bounds, the year filter returns without
  raising the films of the catalog, in its order, whose year \<open>y\<close> satisfies
  \<open>from \<le> y \<le> to\<close>, both ends included; when \<open>from\<close> is above \<open>to\<close> the result is the
  empty list.
\<close>

theorem year_filter_range:
  assumes "well_typed_catalog C"
  shows "year_filter C a b = Inr (filter (year_in_range a b) C)
       \<and> (\<forall>f\<in>set C. \<exists>y. map_of f ''year'' = Some (JInt y)
              \<and> (f \<in> set (filter (year_in_range a b) C)) = (a \<le> y \<and> y \<le> b))
       \<and> (b < a \<longrightarrow> year_filter C a b = Inr [])"
proof -
  have res: "year_filter C a b = Inr (filter (year_in_range a b) C)"
    using assms by (rule year_filter_well_typed)
  have kept: "\<forall>f\<in>set C. \<exists>y. map_of f ''year'' = Some (JInt y)
              \<and> (f \<in> set (filter (year_in_range a b) C)) = (a \<le> y \<and> y \<le> b)"
  proof
    fix f assume f: "f \<in> set C"
    then have "well_typed_film f"
      using assms by (simp add: well_typed_catalog_film)
    then obtain y where y: "map_of f ''year'' = Some (JInt y)"
      using is_integer_cases by (auto simp: well_typed_film_def)
    then have "year_in_range a b f = (a \<le> y \<and> y \<le> b)"
      by (simp add: year_in_range_def)
    with f y show "\<exists>y. map_of f ''year'' = Some (JInt y)
              \<and> (f \<in> set (filter (year_in_range a b) C)) = (a \<le> y \<and> y \<le> b)"
      by simp
  qed
  have empty: "b < a \<longrightarrow> year_filter C a b = Inr []"
  proof
    assume "b < a"
    then have "\<And>f. \<not> year_in_range a b f"
      by (auto simp: year_in_range_def split: option.splits json.splits)
    then have "filter (year_in_range a b) C = []"
      by simp
    with res show "year_filter C a b = Inr []" by simp
  qed
  from res kept empty show ?thesis by blast
qed

theorem year_filter_range_witness:
  "well_typed_catalog example_catalog
   \<and> year_filter example_catalog 1995 2007 = Inr [film_heat, film_hot_fuzz]
   \<and> year_filter example_catalog 2007 1995 = Inr []"
proof -
  note wt = example_catalog_well_typed
  have "filter (year_in_range 1995 2007) example_catalog = [film_heat, film_hot_fuzz]"
    by (simp add: example_defs year_in_range_def)
  moreover have "year_filter example_catalog 1995 2007
      = Inr (filter (year_in_range 1995 2007) example_catalog)"
    using year_filter_range [OF wt, of 1995 2007] by blast
  ultimately have inside: "year_filter example_catalog 1995 2007 = Inr [film_heat, film_hot_fuzz]"
    by simp
  have "(1995::int) < 2007 \<longrightarrow> year_filter example_catalog 2007 1995 = Inr []"
    using year_filter_range [OF wt, of 2007 1995] by blast
  then have reversed: "year_filter example_catalog 2007 1995 = Inr []"
    by simp
  from wt inside reversed show ?thesis by blast
qed

text \<open>
  For a keyword of code points below 128 (ASCII), upper case and then lower case is lower
  case, in the table of the runtime.
\<close>

lemma ascii_lower_upper_cp:
  "c < 128 \<Longrightarrow> latin1_lower (upper_cp c) = lower_cp c"
  by (auto simp: latin1_lower_def upper_cp_def lower_cp_def)

lemma latin1_lower_append:
  "latin1_lower (xs @ ys) = latin1_lower xs @ latin1_lower ys"
  by (simp add: latin1_lower_def)

lemma ascii_lower_upper:
  "\<forall>c\<in>set k. c < 128 \<Longrightarrow> latin1_lower (latin1_upper k) = latin1_lower k"
proof (induction k)
  case Nil
  then show ?case by (simp add: latin1_lower_def latin1_upper_def)
next
  case (Cons c k)
  have "latin1_upper (c # k) = upper_cp c @ latin1_upper k"
    by (simp add: latin1_upper_def)
  then have "latin1_lower (latin1_upper (c # k))
      = latin1_lower (upper_cp c) @ latin1_lower (latin1_upper k)"
    by (simp add: latin1_lower_append)
  also have "\<dots> = lower_cp c @ latin1_lower k"
    using Cons by (simp add: ascii_lower_upper_cp)
  also have "\<dots> = latin1_lower (c # k)"
    by (simp add: latin1_lower_def)
  finally show ?case .
qed

text \<open>
  C5, as stated, fails: \<^verbatim>\<open>str.upper\<close> followed by \<^verbatim>\<open>str.lower\<close> is not always
  \<^verbatim>\<open>str.lower\<close>. The upper case of the sharp s (U+00DF) is SS, whose lower case is ss.
  A film titled Strasse with the sharp s matches the keyword that is the sharp s alone,
  and does not match the upper case of that keyword.
\<close>

theorem keyword_filter_upper_counterexample:
  "keyword_filter latin1_lower [film_strasse] [223] = Inr [film_strasse]
   \<and> keyword_filter latin1_lower [film_strasse] (latin1_upper [223]) = Inr []
   \<and> keyword_filter latin1_lower [film_strasse] [223]
       \<noteq> keyword_filter latin1_lower [film_strasse] (latin1_upper [223])"
proof -
  have one: "keyword_filter latin1_lower [film_strasse] [223] = Inr [film_strasse]"
    by (simp add: keyword_filter_def keyword_cond_def getitem_def film_strasse_def
          latin1_lower_def lower_cp_def sublist_code prefix_code)
  have two: "keyword_filter latin1_lower [film_strasse] (latin1_upper [223]) = Inr []"
    by (simp add: keyword_filter_def keyword_cond_def getitem_def film_strasse_def
          latin1_lower_def lower_cp_def latin1_upper_def upper_cp_def sublist_code prefix_code)
  show ?thesis
    unfolding one two by simp
qed

text \<open>
  C5, amended. For every keyword \<open>k\<close> whose upper case has the same lower case as \<open>k\<close>
  itself, and every catalog, the keyword filter gives the same result (or raises the same
  exception) for \<open>k\<close> and for the upper case of \<open>k\<close>; on a well-typed catalog it returns
  the films of the catalog, in its order, whose lowercased title contains the lowercased
  keyword as a contiguous substring. By \<open>ascii_lower_upper\<close> every keyword of code points
  below 128 is such a keyword.
\<close>

theorem keyword_filter_case_insensitive:
  assumes "lower (upper k) = lower k"
  shows "keyword_filter lower C (upper k) = keyword_filter lower C k
       \<and> (well_typed_catalog C \<longrightarrow>
            keyword_filter lower C k = Inr (filter (title_contains lower k) C)
            \<and> (\<forall>f\<in>set C. \<exists>t. map_of f ''title'' = Some (JStr t)
                  \<and> (f \<in> set (filter (title_contains lower k) C))
                      = (\<exists>ps ss. lower t = ps @ lower k @ ss)))"
proof -
  have same: "keyword_filter lower C (upper k) = keyword_filter lower C k"
    using assms by (simp add: keyword_filter_def)
  have wt: "well_typed_catalog C \<longrightarrow>
            keyword_filter lower C k = Inr (filter (title_contains lower k) C)
            \<and> (\<forall>f\<in>set C. \<exists>t. map_of f ''title'' = Some (JStr t)
                  \<and> (f \<in> set (filter (title_contains lower k) C))
                      = (\<exists>ps ss. lower t = ps @ lower k @ ss))"
  proof (intro impI conjI ballI)
    assume "well_typed_catalog C"
    then show "keyword_filter lower C k = Inr (filter (title_contains lower k) C)"
      by (rule keyword_filter_well_typed)
  next
    fix f
    assume c: "well_typed_catalog C" and f: "f \<in> set C"
    then have "well_typed_film f"
      by (simp add: well_typed_catalog_film)
    then obtain t where t: "map_of f ''title'' = Some (JStr t)"
      using is_text_cases by (auto simp: well_typed_film_def)
    then have "title_contains lower k f = (\<exists>ps ss. lower t = ps @ lower k @ ss)"
      by (simp add: title_contains_def sublist_def)
    with f t show "\<exists>t. map_of f ''title'' = Some (JStr t)
                  \<and> (f \<in> set (filter (title_contains lower k) C))
                      = (\<exists>ps ss. lower t = ps @ lower k @ ss)"
      by simp
  qed
  from same wt show ?thesis by blast
qed

theorem keyword_filter_case_insensitive_witness:
  "latin1_lower (latin1_upper [104, 101, 97, 116]) = latin1_lower [104, 101, 97, 116]
   \<and> well_typed_catalog example_catalog
   \<and> keyword_filter latin1_lower example_catalog (latin1_upper [104, 101, 97, 116])
       = Inr [film_heat, film_the_heat]
   \<and> keyword_filter latin1_lower example_catalog [104, 101, 97, 116]
       = Inr [film_heat, film_the_heat]"
proof -
  have h: "latin1_lower (latin1_upper [104, 101, 97, 116]) = latin1_lower [104, 101, 97, 116]"
    by (simp add: latin1_lower_def latin1_upper_def lower_cp_def upper_cp_def)
  have "filter (title_contains latin1_lower [104, 101, 97, 116]) example_catalog
          = [film_heat, film_the_heat]"
    by (simp add: example_defs title_contains_def latin1_lower_def lower_cp_def
          sublist_code prefix_code)
  then show ?thesis
    using keyword_filter_case_insensitive [of latin1_lower latin1_upper "[104, 101, 97, 116]", OF h,
        of example_catalog]
      example_catalog_well_typed h
    by simp
qed

section \<open>No errors on well-typed input\<close>

lemma sublist_take_drop: "sublist (take n (drop m xs)) xs"
proof -
  have "take n (drop m xs) @ drop n (drop m xs) = drop m xs"
    by (rule append_take_drop_id)
  then have "take m xs @ take n (drop m xs) @ drop n (drop m xs) = xs"
    by (simp only: append_take_drop_id)
  then have "xs = take m xs @ take n (drop m xs) @ drop n (drop m xs)"
    by (rule sym)
  then show ?thesis
    unfolding sublist_def by blast
qed

text \<open>
  C7. The engine raises nothing on well-typed input, degenerate input included. On a
  well-typed catalog each of the three filters returns a list, and on the empty catalog
  the empty list. \<open>paginate\<close> has no failing operation (the length, integer arithmetic and
  a slice never raise), and for a page number and a page size from 1 on its result is a
  valid page: at most \<open>per_page\<close> items, which are a contiguous part of the sequence, an
  offset of 0 or more, and the page number given; for a page past the last one, and so for
  a filter result without films, the items are empty and \<open>has_next\<close> is false. In
  particular page 1 of size 10 of the empty sequence has no items, \<open>has_prev\<close> and
  \<open>has_next\<close> false and offset 0.
\<close>

theorem engine_raises_no_error:
  assumes "well_typed_catalog C" and "1 \<le> pg" and "1 \<le> per_page"
  shows "(\<exists>r. genre_filter C g = Inr r)
       \<and> (\<exists>r. keyword_filter lower C k = Inr r)
       \<and> (\<exists>r. year_filter C a b = Inr r)
       \<and> genre_filter [] g = Inr []
       \<and> keyword_filter lower [] k = Inr []
       \<and> year_filter [] a b = Inr []
       \<and> length (items (paginate S pg per_page)) \<le> nat per_page
       \<and> sublist (items (paginate S pg per_page)) S
       \<and> 0 \<le> offset (paginate S pg per_page)
       \<and> page (paginate S pg per_page) = pg
       \<and> (int (length S) \<le> (pg - 1) * per_page \<longrightarrow>
            items (paginate S pg per_page) = [] \<and> \<not> has_next (paginate S pg per_page))
       \<and> paginate ([] :: 'a list) 1 10
            = \<lparr> items = [], has_prev = False, has_next = False, page = 1, offset = 0 \<rparr>"
proof -
  have g: "\<exists>r. genre_filter C g = Inr r"
    using genre_filter_well_typed [OF assms(1)] by blast
  have k: "\<exists>r. keyword_filter lower C k = Inr r"
    using keyword_filter_well_typed [OF assms(1)] by blast
  have y: "\<exists>r. year_filter C a b = Inr r"
    using year_filter_well_typed [OF assms(1)] by blast
  have e: "genre_filter [] g = Inr []" "keyword_filter lower [] k = Inr []"
      "year_filter [] a b = Inr []"
    by (simp_all add: genre_filter_def keyword_filter_def year_filter_def)
  have its: "items (paginate S pg per_page)
      = take (nat per_page) (drop (nat ((pg - 1) * per_page)) S)"
    using assms(2,3) by (rule paginate_items_pos)
  have len: "length (items (paginate S pg per_page)) \<le> nat per_page"
    unfolding its by simp
  have sub: "sublist (items (paginate S pg per_page)) S"
    unfolding its by (rule sublist_take_drop)
  have nn: "0 \<le> (pg - 1) * per_page"
    using assms(2,3) by (rule offset_nonneg)
  have off: "0 \<le> offset (paginate S pg per_page)"
    using nn by (simp add: paginate_def Let_def)
  have pgn: "page (paginate S pg per_page) = pg"
    by (simp add: paginate_def Let_def)
  have beyond: "int (length S) \<le> (pg - 1) * per_page \<longrightarrow>
            items (paginate S pg per_page) = [] \<and> \<not> has_next (paginate S pg per_page)"
  proof
    assume far: "int (length S) \<le> (pg - 1) * per_page"
    then have "items (paginate S pg per_page) = []"
      unfolding its using nn by simp
    moreover have "\<not> has_next (paginate S pg per_page)"
      using far assms(3) by (simp add: paginate_def Let_def)
    ultimately show "items (paginate S pg per_page) = [] \<and> \<not> has_next (paginate S pg per_page)"
      by simp
  qed
  have "py_slice ([] :: 'a list) 0 10 = []"
    by (simp add: py_slice_def)
  then have ex: "paginate ([] :: 'a list) 1 10
            = \<lparr> items = [], has_prev = False, has_next = False, page = 1, offset = 0 \<rparr>"
    by (simp add: paginate_def Let_def)
  from g k y e len sub off pgn beyond ex show ?thesis
    by (intro conjI)
qed

theorem engine_raises_no_error_witness:
  "well_typed_catalog example_catalog \<and> (1::int) \<le> 5 \<and> (1::int) \<le> 10
   \<and> (\<exists>r. genre_filter example_catalog [] = Inr r)
   \<and> (\<exists>r. keyword_filter latin1_lower example_catalog [122] = Inr r)
   \<and> (\<exists>r. year_filter example_catalog 3000 1000 = Inr r)
   \<and> items (paginate example_catalog 5 10) = []
   \<and> \<not> has_next (paginate example_catalog 5 10)
   \<and> 0 \<le> offset (paginate example_catalog 5 10)"
proof -
  have a: "(1::int) \<le> 5" and b: "(1::int) \<le> 10" by simp_all
  have c: "int (length example_catalog) \<le> (5 - 1) * 10"
    by (simp add: example_catalog_def)
  note th = engine_raises_no_error [OF example_catalog_well_typed a b,
      of "[]" latin1_lower "[122]" 3000 1000 example_catalog]
  from th c have "items (paginate example_catalog 5 10) = []
      \<and> \<not> has_next (paginate example_catalog 5 10)"
    by blast
  with th a b example_catalog_well_typed show ?thesis
    by blast
qed

section \<open>Submitting a search and viewing its result\<close>

text \<open>
  C3. For a well-typed catalog, any bounds and any page number \<open>p\<close> (so every positive
  one): the year-range submit returns the redirect and leaves in \<open>filtered_films\<close> the
  films with a year between the bounds; a view request that follows, with no other write
  to the variable in between, renders the page \<open>p\<close> of size \<open>PER_PAGE\<close> of exactly that
  list. The two handlers are the same in main.py and in app.py.
\<close>

theorem year_submit_then_view:
  assumes "well_typed_catalog C"
  shows "\<exists>st'. year_form_submit C st year_from year_to
                 = Inr (st', RedirectResponse ''/search/year'')
             \<and> filtered_films st' = filter (year_in_range year_from year_to) C
             \<and> year_search st' p
                 = TemplateResponse ''year.html''
                     (paginate (filter (year_in_range year_from year_to) C) p PER_PAGE)"
proof -
  have "year_filter C year_from year_to = Inr (filter (year_in_range year_from year_to) C)"
    using assms by (rule year_filter_well_typed)
  then have "year_form_submit C st year_from year_to
      = Inr (st\<lparr> filtered_films := filter (year_in_range year_from year_to) C \<rparr>,
             RedirectResponse ''/search/year'')"
    by (simp add: year_form_submit_def)
  moreover have "year_search (st\<lparr> filtered_films := filter (year_in_range year_from year_to) C \<rparr>) p
      = TemplateResponse ''year.html''
          (paginate (filter (year_in_range year_from year_to) C) p PER_PAGE)"
    by (simp add: year_search_def)
  ultimately show ?thesis
    by (intro exI [of _ "st\<lparr> filtered_films := filter (year_in_range year_from year_to) C \<rparr>"]) simp
qed

theorem year_submit_then_view_witness:
  "well_typed_catalog example_catalog
   \<and> (\<exists>st'. year_form_submit example_catalog initial_state 2000 2020
                 = Inr (st', RedirectResponse ''/search/year'')
          \<and> year_search st' 1
              = TemplateResponse ''year.html''
                  \<lparr> items = [film_hot_fuzz, film_the_heat], has_prev = False,
                    has_next = False, page = 1, offset = 0 \<rparr>)"
proof -
  have f: "filter (year_in_range 2000 2020) example_catalog = [film_hot_fuzz, film_the_heat]"
    by (simp add: example_defs year_in_range_def)
  have "py_slice [film_hot_fuzz, film_the_heat] 0 10 = [film_hot_fuzz, film_the_heat]"
    by (simp add: py_slice_def adjust_index_def)
  then have p: "paginate [film_hot_fuzz, film_the_heat] 1 PER_PAGE
      = \<lparr> items = [film_hot_fuzz, film_the_heat], has_prev = False,
          has_next = False, page = 1, offset = 0 \<rparr>"
    by (simp add: paginate_def PER_PAGE_def Let_def)
  show ?thesis
    using year_submit_then_view [OF example_catalog_well_typed, of initial_state 2000 2020 1]
      example_catalog_well_typed
    unfolding f p by blast
qed

text \<open>
  C10. In main.py the genre page assigns the genre-filtered list to \<open>filtered_films\<close>:
  after it the variable holds the films of that genre, and a view of a year search or of a
  keyword search that was submitted before the genre page renders the films of the genre
  and not the result of the search. In app.py the genre page leaves the state as it was,
  and the view after it renders the result of the search.
\<close>

theorem genre_browse_and_the_slot:
  assumes "well_typed_catalog C"
  shows "(\<exists>resp. films_by_genre_main C st g p
                  = Inr (st\<lparr> filtered_films := filter (has_genre g) C \<rparr>, resp))
       \<and> (\<exists>st1 r1 st2 r2.
             year_form_submit C st year_from year_to = Inr (st1, r1)
             \<and> films_by_genre_main C st1 g p = Inr (st2, r2)
             \<and> year_search st2 q
                 = TemplateResponse ''year.html'' (paginate (filter (has_genre g) C) q PER_PAGE))
       \<and> (\<exists>st1 r1 st2 r2.
             keyword_search_main lower C st k = Inr (st1, r1)
             \<and> films_by_genre_main C st1 g p = Inr (st2, r2)
             \<and> keyword_form_main st2 q
                 = TemplateResponse ''keyword.html'' (paginate (filter (has_genre g) C) q PER_PAGE))
       \<and> (\<exists>resp. films_by_genre_app C st g p = Inr (st, resp))
       \<and> (\<exists>st1 r1 r2.
             year_form_submit C st year_from year_to = Inr (st1, r1)
             \<and> films_by_genre_app C st1 g p = Inr (st1, r2)
             \<and> year_search st1 q
                 = TemplateResponse ''year.html''
                     (paginate (filter (year_in_range year_from year_to) C) q PER_PAGE))"
proof -
  note gf = genre_filter_well_typed [OF assms, of g]
  note yf = year_filter_well_typed [OF assms, of year_from year_to]
  note kf = keyword_filter_well_typed [OF assms, of lower k]
  have m: "\<And>s. films_by_genre_main C s g p
      = Inr (s\<lparr> filtered_films := filter (has_genre g) C \<rparr>,
             TemplateResponse ''keyword.html'' (paginate (filter (has_genre g) C) p PER_PAGE))"
    using gf by (simp add: films_by_genre_main_def Let_def)
  have a: "\<And>s. films_by_genre_app C s g p
      = Inr (s, TemplateResponse ''keyword.html'' (paginate (filter (has_genre g) C) p PER_PAGE))"
    using gf by (simp add: films_by_genre_app_def Let_def)
  have ys: "year_form_submit C st year_from year_to
      = Inr (st\<lparr> filtered_films := filter (year_in_range year_from year_to) C \<rparr>,
             RedirectResponse ''/search/year'')"
    using yf by (simp add: year_form_submit_def)
  have ks: "keyword_search_main lower C st k
      = Inr (st\<lparr> filtered_films := filter (title_contains lower k) C \<rparr>,
             RedirectResponse ''/search/keyword'')"
    using kf by (simp add: keyword_search_main_def)
  have c1: "\<exists>resp. films_by_genre_main C st g p
                  = Inr (st\<lparr> filtered_films := filter (has_genre g) C \<rparr>, resp)"
    using m by blast
  have c2: "\<exists>st1 r1 st2 r2.
             year_form_submit C st year_from year_to = Inr (st1, r1)
             \<and> films_by_genre_main C st1 g p = Inr (st2, r2)
             \<and> year_search st2 q
                 = TemplateResponse ''year.html'' (paginate (filter (has_genre g) C) q PER_PAGE)"
    using ys m [of "st\<lparr> filtered_films := filter (year_in_range year_from year_to) C \<rparr>"]
    by (auto simp: year_search_def)
  have c3: "\<exists>st1 r1 st2 r2.
             keyword_search_main lower C st k = Inr (st1, r1)
             \<and> films_by_genre_main C st1 g p = Inr (st2, r2)
             \<and> keyword_form_main st2 q
                 = TemplateResponse ''keyword.html'' (paginate (filter (has_genre g) C) q PER_PAGE)"
    using ks m [of "st\<lparr> filtered_films := filter (title_contains lower k) C \<rparr>"]
    by (auto simp: keyword_form_main_def)
  have c4: "\<exists>resp. films_by_genre_app C st g p = Inr (st, resp)"
    using a by blast
  have c5: "\<exists>st1 r1 r2.
             year_form_submit C st year_from year_to = Inr (st1, r1)
             \<and> films_by_genre_app C st1 g p = Inr (st1, r2)
             \<and> year_search st1 q
                 = TemplateResponse ''year.html''
                     (paginate (filter (year_in_range year_from year_to) C) q PER_PAGE)"
    using ys a [of "st\<lparr> filtered_films := filter (year_in_range year_from year_to) C \<rparr>"]
    by (auto simp: year_search_def)
  from c1 c2 c3 c4 c5 show ?thesis
    by (intro conjI)
qed

theorem genre_browse_and_the_slot_witness:
  "well_typed_catalog example_catalog
   \<and> (\<exists>st1 r1 st2 r2.
         year_form_submit example_catalog initial_state 1990 2000 = Inr (st1, r1)
         \<and> films_by_genre_main example_catalog st1 comedy 1 = Inr (st2, r2)
         \<and> year_search st2 1
             = TemplateResponse ''year.html''
                 \<lparr> items = [film_hot_fuzz, film_the_heat], has_prev = False,
                   has_next = False, page = 1, offset = 0 \<rparr>)
   \<and> (\<exists>st1 r1 r2.
         year_form_submit example_catalog initial_state 1990 2000 = Inr (st1, r1)
         \<and> films_by_genre_app example_catalog st1 comedy 1 = Inr (st1, r2)
         \<and> year_search st1 1
             = TemplateResponse ''year.html''
                 \<lparr> items = [film_heat], has_prev = False,
                   has_next = False, page = 1, offset = 0 \<rparr>)"
proof -
  have f1: "filter (has_genre comedy) example_catalog = [film_hot_fuzz, film_the_heat]"
    by (simp add: example_defs has_genre_def)
  have f2: "filter (year_in_range 1990 2000) example_catalog = [film_heat]"
    by (simp add: example_defs year_in_range_def)
  have "py_slice [film_hot_fuzz, film_the_heat] 0 10 = [film_hot_fuzz, film_the_heat]"
    by (simp add: py_slice_def adjust_index_def)
  then have p1: "paginate [film_hot_fuzz, film_the_heat] 1 PER_PAGE
      = \<lparr> items = [film_hot_fuzz, film_the_heat], has_prev = False,
          has_next = False, page = 1, offset = 0 \<rparr>"
    by (simp add: paginate_def PER_PAGE_def Let_def)
  have "py_slice [film_heat] 0 10 = [film_heat]"
    by (simp add: py_slice_def adjust_index_def)
  then have p2: "paginate [film_heat] 1 PER_PAGE
      = \<lparr> items = [film_heat], has_prev = False,
          has_next = False, page = 1, offset = 0 \<rparr>"
    by (simp add: paginate_def PER_PAGE_def Let_def)
  show ?thesis
    using genre_browse_and_the_slot [OF example_catalog_well_typed,
        where st = initial_state and g = comedy and p = 1 and year_from = 1990
          and year_to = 2000 and q = 1 and lower = latin1_lower and k = "[]"]
      example_catalog_well_typed
    unfolding f1 f2 p1 p2 by blast
qed

end
